theory Spec2Isabelle
  imports Main "HOL-Library.AList"
begin

section \<open>Field-path shaper: \<open>parseFieldPath\<close>\<close>

text \<open>
  The values that flow through the library are JavaScript values. Only their object
  structure matters here: \<open>Leaf\<close> is any non-object value (kept abstract), and
  \<open>Obj\<close> is a plain object, held as the list of its own (key, value) entries in
  insertion order. Keys are unique in every object built below.
\<close>

datatype 'a jsval = Leaf 'a | Obj "(string \<times> 'a jsval) list"

type_synonym 'a obj = "(string \<times> 'a jsval) list"

text \<open>
  \<open>split_dot fp\<close> is \<^verbatim>\<open>fp.split('.')\<close>: the input is cut at every dot, empty pieces are
  kept, and the empty string yields one empty piece. \<open>join_dot\<close> is
  \<^verbatim>\<open>fields.join('.')\<close>.
\<close>

fun split_dot :: "string \<Rightarrow> string list" where
  "split_dot [] = [[]]"
| "split_dot (c # cs) =
     (if c = CHR ''.'' then [] # split_dot cs
      else (case split_dot cs of [] \<Rightarrow> [[c]] | s # ss \<Rightarrow> (c # s) # ss))"

fun join_dot :: "string list \<Rightarrow> string" where
  "join_dot [] = []"
| "join_dot [s] = s"
| "join_dot (s # t # ss) = s @ ''.'' @ join_dot (t # ss)"

lemma split_dot_not_Nil: "split_dot fp \<noteq> []"
  by (induction fp) (auto split: list.splits)

lemma join_split_dot: "join_dot (split_dot fp) = fp"
proof (induction fp)
  case Nil
  show ?case by simp
next
  case (Cons c cs)
  obtain s ss where sp: "split_dot cs = s # ss"
    using split_dot_not_Nil [of cs] by (cases "split_dot cs") auto
  show ?case
  proof (cases "c = CHR ''.''")
    case True
    with Cons sp show ?thesis by simp
  next
    case False
    with Cons sp show ?thesis by (cases ss) auto
  qed
qed

lemma length_join_tail:
  assumes "split_dot fp = s0 # rest" and "rest \<noteq> []"
  shows "length (join_dot rest) < length fp"
proof -
  obtain t ts where r: "rest = t # ts" using assms(2) by (cases rest) auto
  have "fp = join_dot (s0 # t # ts)" using join_split_dot [of fp] assms(1) r by simp
  then show ?thesis using r by simp
qed

text \<open>
  \<^verbatim>\<open>parseFieldPath(fp, data)\<close> (index.ts, lines 236-251). \<^verbatim>\<open>fields[0]\<close> of an empty
  array would be \<^verbatim>\<open>undefined\<close> and give the key \<^verbatim>\<open>"undefined"\<close>; the first case keeps
  that branch although \<open>split_dot\<close> never returns the empty list.
  \<^verbatim>\<open>fields.slice(1)\<close> is the tail. The recursion is on a strictly shorter string
  (\<open>length_join_tail\<close>), so the function is total.
\<close>

function parseFieldPath :: "string \<Rightarrow> 'a jsval \<Rightarrow> 'a obj" where
  "parseFieldPath fp data =
     (case split_dot fp of
        [] \<Rightarrow> [(''undefined'', data)]
      | s0 # rest \<Rightarrow>
          (let result = [(s0, data)]
           in if length rest \<noteq> 0
              then AList.update s0 (Obj (parseFieldPath (join_dot rest) data)) result
              else result))"
  by pat_completeness auto
termination
  by (relation "measure (\<lambda>(fp, data). length fp)") (auto simp: length_join_tail)

declare parseFieldPath.simps [simp del]

text \<open>
  The shape that the specification describes: \<open>nest [s0, ..., sn] v\<close> is
  \<open>{s0: {s1: ... {sn: v}}}\<close>. \<open>depth\<close> counts object levels, \<open>descend\<close> follows a
  sequence of keys, and \<open>dot_free\<close> says that a segment holds no dot.
\<close>

fun nest :: "string list \<Rightarrow> 'a jsval \<Rightarrow> 'a jsval" where
  "nest [] v = v"
| "nest (s # ss) v = Obj [(s, nest ss v)]"

fun depth :: "'a jsval \<Rightarrow> nat" where
  "depth (Leaf _) = 0"
| "depth (Obj kvs) = Suc (fold max (map (\<lambda>kv. depth (snd kv)) kvs) 0)"

fun descend :: "string list \<Rightarrow> 'a jsval \<Rightarrow> 'a jsval option" where
  "descend [] v = Some v"
| "descend (s # ss) (Leaf _) = None"
| "descend (s # ss) (Obj kvs) = (case map_of kvs s of None \<Rightarrow> None | Some v \<Rightarrow> descend ss v)"

definition dot_free :: "string \<Rightarrow> bool" where
  "dot_free s = (CHR ''.'' \<notin> set s)"

section \<open>Reading one document: \<open>getDoc\<close>\<close>

text \<open>
  \<open>spread target source\<close> is the object literal \<^verbatim>\<open>{...target, ...source}\<close>: the entries
  of \<open>target\<close>, then each entry of \<open>source\<close> in order, replacing the value of a key that
  is already present and appending a new key otherwise.
\<close>

definition spread :: "'a obj \<Rightarrow> 'a obj \<Rightarrow> 'a obj" where
  "spread target source = fold (\<lambda>kv acc. AList.update (fst kv) (snd kv) acc) source target"

text \<open>
  An element of the rest parameter \<^verbatim>\<open>getFields\<close>, the parts of the document snapshot
  that \<^verbatim>\<open>getDoc\<close> reads (\<^verbatim>\<open>exists\<close>, \<^verbatim>\<open>get\<close>, \<^verbatim>\<open>id\<close>, \<^verbatim>\<open>metadata\<close> and
  \<^verbatim>\<open>data(options)\<close>), and the two shapes of its result.
\<close>

record 'o field_request =
  fieldPath :: string
  options :: "'o option"

record ('a, 'o, 'm) snapshot =
  snap_exists :: bool
  snap_get :: "string \<Rightarrow> 'o option \<Rightarrow> 'a jsval"
  snap_id :: string
  snap_metadata :: 'm
  snap_data :: "'o option \<Rightarrow> 'a jsval"

record ('a, 'm) doc_result =
  doc_data :: "'a jsval"
  doc_exists :: bool
  doc_id :: string
  doc_metadata :: 'm

datatype ('a, 'm) getDoc_result = DataOnly "'a jsval" | Full "('a, 'm) doc_result"

text \<open>
  The \<^verbatim>\<open>for (const v of d)\<close> loop of \<^verbatim>\<open>getDoc\<close> (index.ts, lines 68-77). An element
  of \<open>d\<close> is the pair of the value fetched for a request and the request's field path
  (\<^verbatim>\<open>{data: get(fieldPath, options), fieldPath}\<close>). The second argument of
  \<^verbatim>\<open>parseFieldPath\<close> in the source is the variable \<^verbatim>\<open>data\<close>, the object accumulated so
  far, not \<^verbatim>\<open>v.data\<close>.
\<close>

fun shape_loop :: "('a jsval \<times> string) list \<Rightarrow> 'a obj \<Rightarrow> 'a obj" where
  "shape_loop [] data = data"
| "shape_loop (v # d) data =
     (let parsedFieldPath = parseFieldPath (snd v) (Obj data)
      in shape_loop d (spread data parsedFieldPath))"

text \<open>
  \<^verbatim>\<open>getDoc(ref, dataOnly, options, ...getFields)\<close> (index.ts, lines 54-97). The call of
  the client library, \<^verbatim>\<open>getDocument(ref)\<close>, is a parameter; the awaited promise either
  rejects (\<open>Inl\<close>) or yields a snapshot.
\<close>

definition getDoc ::
  "('r \<Rightarrow> 'e + ('a, 'o, 'm) snapshot) \<Rightarrow> 'r \<Rightarrow> bool \<Rightarrow> 'o option \<Rightarrow>
     'o field_request list \<Rightarrow> 'e + ('a, 'm) getDoc_result" where
  "getDoc getDocument ref dataOnly opts getFields =
     (case getDocument ref of
        Inl err \<Rightarrow> Inl err
      | Inr snap \<Rightarrow>
          if length getFields \<noteq> 0 then
            (let d = map (\<lambda>f. (snap_get snap (fieldPath f) (options f), fieldPath f)) getFields;
                 data = shape_loop d []
             in if dataOnly then Inr (DataOnly (Obj data))
                else Inr (Full \<lparr>doc_data = Obj data, doc_exists = snap_exists snap,
                                 doc_id = snap_id snap, doc_metadata = snap_metadata snap\<rparr>))
          else if dataOnly then Inr (DataOnly (snap_data snap opts))
          else Inr (Full \<lparr>doc_data = snap_data snap opts, doc_exists = snap_exists snap,
                           doc_id = snap_id snap, doc_metadata = snap_metadata snap\<rparr>))"

text \<open>
  The merge as the specification words it: every requested path is shaped around the
  value that was fetched for that path, and the shaped objects are merged shallowly.
\<close>

fun spec_shape_fields :: "('a jsval \<times> string) list \<Rightarrow> 'a obj \<Rightarrow> 'a obj" where
  "spec_shape_fields [] acc = acc"
| "spec_shape_fields (v # d) acc = spec_shape_fields d (spread acc (parseFieldPath (snd v) (fst v)))"

text \<open>A snapshot whose every field reads as the same non-object value.\<close>

definition title_snapshot :: "(nat, unit, unit) snapshot" where
  "title_snapshot =
     \<lparr>snap_exists = True, snap_get = (\<lambda>fp opts. Leaf 1), snap_id = ''doc1'',
      snap_metadata = (), snap_data = (\<lambda>opts. Obj [(''a'', Leaf 1)])\<rparr>"

definition title_getDocument :: "nat \<Rightarrow> unit + (nat, unit, unit) snapshot" where
  "title_getDocument ref = Inr title_snapshot"

section \<open>Chunked batch writer: \<open>writeBatch\<close>\<close>

text \<open>
  \<^verbatim>\<open>WriteType\<close> and \<^verbatim>\<open>Write<T>\<close> (index.ts, lines 197-206); the fields \<^verbatim>\<open>type\<close>, \<^verbatim>\<open>data\<close>
  and \<^verbatim>\<open>ref\<close> are \<open>wtype\<close>, \<open>wdata\<close> and \<open>wref\<close>. A payload is a document object, so it
  is truthy exactly when it is present. A batch of the client library is the database
  handle it was opened on and the operations appended to it so far; \<open>writeDocs fs\<close>
  opens an empty one. A call on \<^verbatim>\<open>undefined\<close> raises \<open>TypeError\<close>.
\<close>

datatype WriteType = DELETE | SET | UPDATE

record ('r, 'd) Write =
  wtype :: WriteType
  wdata :: "'d option"
  wref :: 'r

datatype ('r, 'd) operation = OpUpdate 'r 'd | OpDelete 'r | OpSet 'r 'd

record ('f, 'r, 'd) WriteBatch =
  db :: 'f
  ops :: "('r, 'd) operation list"

datatype js_error = TypeError

definition writeDocs :: "'f \<Rightarrow> ('f, 'r, 'd) WriteBatch" where
  "writeDocs fs = \<lparr>db = fs, ops = []\<rparr>"

text \<open>
  \<open>chunk\<close> is the function of that name of the lodash library: consecutive groups of
  \<open>n\<close> elements, the last group holding what is left, and no group at all for an empty
  list or a size below one.
\<close>

function chunk :: "'a list \<Rightarrow> nat \<Rightarrow> 'a list list" where
  "chunk xs n = (if xs = [] \<or> n < 1 then [] else take n xs # chunk (drop n xs) n)"
  by pat_completeness auto
termination
  by (relation "measure (\<lambda>(xs, n). length xs)") auto

declare chunk.simps [simp del]

text \<open>
  \<open>then_do\<close> sequences two steps, the second running only if the first did not throw.
  \<open>on_first_batch op batches\<close> is a call \<^verbatim>\<open>batches[0].update(...)\<close>,
  \<^verbatim>\<open>batches[0].delete(...)\<close> or \<^verbatim>\<open>batches[0].set(...)\<close>: on an empty array
  \<^verbatim>\<open>batches[0]\<close> is \<^verbatim>\<open>undefined\<close> and the call throws; otherwise the operation is
  appended to the first batch of the array, in place.
\<close>

definition then_do :: "'e + 'a \<Rightarrow> ('a \<Rightarrow> 'e + 'b) \<Rightarrow> 'e + 'b" where
  "then_do r f = (case r of Inl e \<Rightarrow> Inl e | Inr x \<Rightarrow> f x)"

definition on_first_batch ::
  "('r, 'd) operation \<Rightarrow> ('f, 'r, 'd) WriteBatch list \<Rightarrow> js_error + ('f, 'r, 'd) WriteBatch list" where
  "on_first_batch op batches =
     (case batches of
        [] \<Rightarrow> Inl TypeError
      | b # bs \<Rightarrow> Inr (b\<lparr>ops := ops b @ [op]\<rparr> # bs))"

text \<open>
  The body of the two inner loops (index.ts, lines 216-218 and 227-229): three
  \<^verbatim>\<open>if\<close> statements in sequence. \<open>write_loop\<close> is the inner loop over the writes of
  one chunk (or over all writes), \<open>chunk_loop\<close> the outer loop over the chunks (lines
  212-222): the fresh \<^verbatim>\<open>batch\<close> is opened first, the inner loop runs on
  \<^verbatim>\<open>batches[0]\<close>, and only then is \<^verbatim>\<open>batch\<close> pushed. Until it is pushed the fresh batch
  is not reachable from the array, so it is pushed with no operation.
\<close>

definition apply_write ::
  "('r, 'd) Write \<Rightarrow> ('f, 'r, 'd) WriteBatch list \<Rightarrow> js_error + ('f, 'r, 'd) WriteBatch list" where
  "apply_write w batches =
     then_do (if wtype w = UPDATE
              then (case wdata w of
                      Some d \<Rightarrow> on_first_batch (OpUpdate (wref w) d) batches
                    | None \<Rightarrow> Inr batches)
              else Inr batches)
       (\<lambda>batches.
     then_do (if wtype w = DELETE then on_first_batch (OpDelete (wref w)) batches
              else Inr batches)
       (\<lambda>batches.
     (if wtype w = SET
      then (case wdata w of
              Some d \<Rightarrow> on_first_batch (OpSet (wref w) d) batches
            | None \<Rightarrow> Inr batches)
      else Inr batches)))"

fun write_loop ::
  "('r, 'd) Write list \<Rightarrow> ('f, 'r, 'd) WriteBatch list \<Rightarrow> js_error + ('f, 'r, 'd) WriteBatch list" where
  "write_loop [] batches = Inr batches"
| "write_loop (w # ws) batches = then_do (apply_write w batches) (write_loop ws)"

fun chunk_loop ::
  "'f \<Rightarrow> ('r, 'd) Write list list \<Rightarrow> ('f, 'r, 'd) WriteBatch list \<Rightarrow>
     js_error + ('f, 'r, 'd) WriteBatch list" where
  "chunk_loop fs [] batches = Inr batches"
| "chunk_loop fs (c # cs) batches =
     (let batch = writeDocs fs
      in then_do (write_loop c batches) (\<lambda>batches. chunk_loop fs cs (batches @ [batch])))"

text \<open>
  \<^verbatim>\<open>Promise.all\<close> over the commits. A commit settles at some instant, either rejected
  with a reason (\<open>Inl\<close>) or fulfilled (\<open>Inr\<close>). \<open>first_rejection\<close> is the rejection with
  the least instant, the one of lower index among equals. \<open>promise_all\<close> rejects with
  that reason if there is one and is fulfilled with all the values otherwise.
\<close>

fun first_rejection :: "(nat \<times> ('e + 'a)) list \<Rightarrow> (nat \<times> 'e) option" where
  "first_rejection [] = None"
| "first_rejection ((t, Inr x) # ps) = first_rejection ps"
| "first_rejection ((t, Inl e) # ps) =
     (case first_rejection ps of
        None \<Rightarrow> Some (t, e)
      | Some (t', e') \<Rightarrow> if t' < t then Some (t', e') else Some (t, e))"

definition promise_all :: "(nat \<times> ('e + 'a)) list \<Rightarrow> 'e + 'a list" where
  "promise_all ps =
     (case first_rejection ps of
        Some (t, e) \<Rightarrow> Inl e
      | None \<Rightarrow> Inr (concat (map (\<lambda>p. case snd p of Inl e \<Rightarrow> [] | Inr x \<Rightarrow> [x]) ps)))"

text \<open>
  \<^verbatim>\<open>writeBatch(fs, writes)\<close> (index.ts, lines 207-234). \<open>commit\<close> is the client library's
  \<^verbatim>\<open>batch.commit()\<close>. The result is \<open>Inl\<close> when the function throws before it returns a
  promise; otherwise it is the batches whose commit was issued, as they are then,
  together with what the returned promise settles to.
\<close>

definition writeBatch ::
  "(('f, 'r, 'd) WriteBatch \<Rightarrow> nat \<times> ('e + unit)) \<Rightarrow> 'f \<Rightarrow> ('r, 'd) Write list \<Rightarrow>
     js_error + (('f, 'r, 'd) WriteBatch list \<times> ('e + unit list))" where
  "writeBatch commit fs writes =
     (let batches = []
      in then_do (if length writes > 500 then chunk_loop fs (chunk writes 500) batches
                  else Inr batches)
           (\<lambda>batches.
         then_do (if length writes \<le> 500 then write_loop writes batches else Inr batches)
           (\<lambda>batches. Inr (batches, promise_all (map commit batches)))))"

text \<open>
  A write is effective if one of the three \<^verbatim>\<open>if\<close> statements fires for it. The commit
  \<open>always_fulfils\<close> is a store that accepts every batch.
\<close>

definition effective :: "('r, 'd) Write \<Rightarrow> bool" where
  "effective w = (case wtype w of DELETE \<Rightarrow> True | _ \<Rightarrow> wdata w \<noteq> None)"

definition always_fulfils :: "('f, 'r, 'd) WriteBatch \<Rightarrow> nat \<times> ('e + unit)" where
  "always_fulfils batch = (0, Inr ())"

section \<open>Subscriptions and deletion: \<open>listenDoc\<close>, \<open>listenDocs\<close>, \<open>delDoc\<close>\<close>

text \<open>
  The callback object with its three optional members (\<open>on_complete\<close>, \<open>on_error\<close>,
  \<open>on_next\<close> for \<^verbatim>\<open>complete\<close>, \<^verbatim>\<open>error\<close>, \<^verbatim>\<open>next\<close>). The client library's
  \<^verbatim>\<open>onSnapshot\<close> is a parameter: it takes the state of the client, registers the
  observer and returns the registration handle with the new state. Both functions
  (index.ts, lines 163-176 and 178-191) call it as a statement and have no
  \<^verbatim>\<open>return\<close>, so their value is \<^verbatim>\<open>undefined\<close>, here \<open>None\<close>.
\<close>

record ('c, 'e, 'n) observer =
  on_complete :: "'c option"
  on_error :: "'e option"
  on_next :: "'n option"

definition listenDoc ::
  "('t \<Rightarrow> ('c, 'e, 'n) observer \<Rightarrow> 'w \<Rightarrow> 'h \<times> 'w) \<Rightarrow> 't \<Rightarrow> ('c, 'e, 'n) observer \<Rightarrow> 'w \<Rightarrow>
     'h option \<times> 'w" where
  "listenDoc onSnapshot ref cb w =
     (let (unsubscribe, w') =
            onSnapshot ref \<lparr>on_complete = on_complete cb, on_error = on_error cb,
                             on_next = on_next cb\<rparr> w
      in (None, w'))"

definition listenDocs ::
  "('q \<Rightarrow> ('c, 'e, 'n) observer \<Rightarrow> 'w \<Rightarrow> 'h \<times> 'w) \<Rightarrow> 'q \<Rightarrow> ('c, 'e, 'n) observer \<Rightarrow> 'w \<Rightarrow>
     'h option \<times> 'w" where
  "listenDocs onSnapshot query cb w =
     (let (unsubscribe, w') =
            onSnapshot query \<lparr>on_complete = on_complete cb, on_error = on_error cb,
                               on_next = on_next cb\<rparr> w
      in (None, w'))"

text \<open>
  \<^verbatim>\<open>delDoc(fs, ref)\<close> (index.ts, lines 193-195) returns \<^verbatim>\<open>deleteDoc(ref)\<close>, the client
  library's deletion, again a parameter.
\<close>

definition delDoc :: "('r \<Rightarrow> 'w \<Rightarrow> 'p \<times> 'w) \<Rightarrow> 'f \<Rightarrow> 'r \<Rightarrow> 'w \<Rightarrow> 'p \<times> 'w" where
  "delDoc deleteDoc fs ref w = deleteDoc ref w"

text \<open>
  A client whose registration handle is the number of observers registered before, and
  a callback object with no member.
\<close>

definition counting_onSnapshot :: "nat \<Rightarrow> (unit, unit, unit) observer \<Rightarrow> nat \<Rightarrow> nat \<times> nat" where
  "counting_onSnapshot target obs registered = (registered, Suc registered)"

definition no_callbacks :: "(unit, unit, unit) observer" where
  "no_callbacks = \<lparr>on_complete = None, on_error = None, on_next = None\<rparr>"

section \<open>Properties of the field-path shaper\<close>

lemma split_dot_dot_free: "dot_free k \<Longrightarrow> split_dot k = [k]"
  by (induction k) (auto simp: dot_free_def)

lemma split_dot_segment:
  "dot_free s \<Longrightarrow> split_dot (s @ CHR ''.'' # t) = s # split_dot t"
  by (induction s) (auto simp: dot_free_def)

lemma split_join_dot:
  "segs \<noteq> [] \<Longrightarrow> list_all dot_free segs \<Longrightarrow> split_dot (join_dot segs) = segs"
proof (induction segs rule: join_dot.induct)
  case 1
  then show ?case by simp
next
  case (2 s)
  then show ?case by (simp add: split_dot_dot_free)
next
  case (3 s t ss)
  then show ?case by (simp add: split_dot_segment)
qed

lemma split_dot_segments_dot_free: "list_all dot_free (split_dot fp)"
proof (induction fp)
  case Nil
  show ?case by (simp add: dot_free_def)
next
  case (Cons c cs)
  then show ?case by (auto simp: dot_free_def split: list.splits)
qed

lemma parseFieldPath_nest: "Obj (parseFieldPath fp v) = nest (split_dot fp) v"
proof (induction fp v rule: parseFieldPath.induct)
  case (1 fp data)
  obtain s0 rest where sp: "split_dot fp = s0 # rest"
    using split_dot_not_Nil [of fp] by (cases "split_dot fp") auto
  show ?case
  proof (cases "rest = []")
    case True
    with sp show ?thesis by (simp add: parseFieldPath.simps [of fp])
  next
    case False
    have "list_all dot_free rest"
      using split_dot_segments_dot_free [of fp] sp by simp
    with False have rt: "split_dot (join_dot rest) = rest"
      by (rule split_join_dot)
    have "Obj (parseFieldPath (join_dot rest) data) = nest rest data"
      using "1.IH" [OF sp refl] False rt by simp
    with sp False show ?thesis by (simp add: parseFieldPath.simps [of fp])
  qed
qed

lemma depth_nest: "depth (nest segs v) = length segs + depth v"
  by (induction segs) auto

lemma descend_nest: "descend segs (nest segs v) = Some v"
  by (induction segs) auto

lemma first_key: "\<exists>x. parseFieldPath fp v = [(hd (split_dot fp), x)]"
proof -
  obtain s0 rest where sp: "split_dot fp = s0 # rest"
    using split_dot_not_Nil [of fp] by (cases "split_dot fp") auto
  have "Obj (parseFieldPath fp v) = Obj [(s0, nest rest v)]"
    using parseFieldPath_nest [of fp v] sp by simp
  with sp show ?thesis by simp
qed

text \<open>
  Claim C3. For a dot-free key \<open>k\<close> and any value \<open>v\<close>, \<open>parseFieldPath k v\<close> is exactly
  \<open>{k: v}\<close> (also when \<open>k\<close> is empty). For a path made of the dot-free segments
  \<open>s0, ..., sn\<close> joined by dots, the result is \<open>{s0: {s1: ... {sn: v}}}\<close>, and it has as
  many object levels above \<open>v\<close> as the path has segments.
\<close>

theorem parseFieldPath_shape:
  "(dot_free k \<longrightarrow> parseFieldPath k v = [(k, v)]) \<and>
   (segs \<noteq> [] \<and> list_all dot_free segs \<longrightarrow>
      Obj (parseFieldPath (join_dot segs) v) = nest segs v \<and>
      depth (Obj (parseFieldPath (join_dot segs) v)) = length segs + depth v)"
proof -
  have a: "parseFieldPath k v = [(k, v)]" if "dot_free k"
    using parseFieldPath_nest [of k v] split_dot_dot_free [OF that] by simp
  have b: "Obj (parseFieldPath (join_dot segs) v) = nest segs v"
    if "segs \<noteq> []" "list_all dot_free segs"
    using parseFieldPath_nest [of "join_dot segs" v] split_join_dot [OF that] by simp
  from a b show ?thesis by (simp add: depth_nest)
qed

theorem parseFieldPath_shape_witness:
  "dot_free ''title'' \<and> parseFieldPath ''title'' (Leaf (7::nat)) = [(''title'', Leaf 7)] \<and>
   [''a'', ''b'', ''c''] \<noteq> [] \<and> list_all dot_free [''a'', ''b'', ''c''] \<and>
   Obj (parseFieldPath ''a.b.c'' (Leaf (7::nat))) =
     Obj [(''a'', Obj [(''b'', Obj [(''c'', Leaf 7)])])] \<and>
   depth (Obj (parseFieldPath ''a.b.c'' (Leaf (7::nat)))) = 3"
  using parseFieldPath_shape [of "''title''" "Leaf (7::nat)" "[''a'', ''b'', ''c'']"]
  by (simp add: dot_free_def)

text \<open>
  Claim C8. \<open>parseFieldPath\<close> is a total function (its termination is proved above), and
  it has no failing branch: for every path, empty or not, the result is an object with
  one key, and following the segments of the path through it reaches the value. An empty
  segment (a leading, trailing or doubled dot) is a key equal to the empty string.
\<close>

theorem parseFieldPath_total:
  "(\<exists>k x. parseFieldPath fp v = [(k, x)]) \<and>
   descend (split_dot fp) (Obj (parseFieldPath fp v)) = Some v \<and>
   parseFieldPath ''.a'' v = [('''', Obj [(''a'', v)])] \<and>
   parseFieldPath ''a.'' v = [(''a'', Obj [('''', v)])] \<and>
   parseFieldPath ''a..b'' v = [(''a'', Obj [('''', Obj [(''b'', v)])])] \<and>
   parseFieldPath ''.'' v = [('''', Obj [('''', v)])]"
proof -
  obtain s0 rest where sp: "split_dot fp = s0 # rest"
    using split_dot_not_Nil [of fp] by (cases "split_dot fp") auto
  have "Obj (parseFieldPath fp v) = Obj [(s0, nest rest v)]"
    using parseFieldPath_nest [of fp v] sp by simp
  then have ex: "\<exists>k x. parseFieldPath fp v = [(k, x)]" by simp
  have d: "descend (split_dot fp) (Obj (parseFieldPath fp v)) = Some v"
    by (simp add: parseFieldPath_nest descend_nest)
  have e1: "parseFieldPath ''.a'' v = [('''', Obj [(''a'', v)])]"
    using parseFieldPath_nest [of "''.a''" v] by simp
  have e2: "parseFieldPath ''a.'' v = [(''a'', Obj [('''', v)])]"
    using parseFieldPath_nest [of "''a.''" v] by simp
  have e3: "parseFieldPath ''a..b'' v = [(''a'', Obj [('''', Obj [(''b'', v)])])]"
    using parseFieldPath_nest [of "''a..b''" v] by simp
  have e4: "parseFieldPath ''.'' v = [('''', Obj [('''', v)])]"
    using parseFieldPath_nest [of "''.''" v] by simp
  from ex d e1 e2 e3 e4 show ?thesis by blast
qed

section \<open>Properties of \<open>getDoc\<close>\<close>

lemma parseFieldPath_single: "parseFieldPath ''a'' v = [(''a'', v)]"
  using parseFieldPath_nest [of "''a''" v] by simp

lemma shape_loop_ignores_fetched:
  "map snd d = map snd d' \<Longrightarrow> shape_loop d acc = shape_loop d' acc"
proof (induction d arbitrary: d' acc)
  case Nil
  then show ?case by simp
next
  case (Cons v d)
  then obtain v' e where "d' = v' # e" "snd v = snd v'" "map snd d = map snd e" by auto
  with Cons.IH [of e] show ?case by simp
qed

text \<open>
  Claim C2, evaluated on the code. One field \<open>a\<close> is requested from a document whose
  field \<open>a\<close> reads \<open>Leaf 1\<close>. \<open>getDoc\<close> returns \<open>{a: {}}\<close>: the value nested under the path
  is the object accumulated so far (\<open>shape_loop_ignores_fetched\<close>: the fetched values never
  reach the result). Shaping the path around the fetched value gives \<open>{a: 1}\<close>.
\<close>

theorem getDoc_drops_fetched_value:
  "getDoc title_getDocument 0 True None [\<lparr>fieldPath = ''a'', options = None\<rparr>]
     = Inr (DataOnly (Obj [(''a'', Obj [])])) \<and>
   snap_get title_snapshot ''a'' None = Leaf 1 \<and>
   Obj (spec_shape_fields [(snap_get title_snapshot ''a'' None, ''a'')] [])
     = Obj [(''a'', Leaf 1)]"
  by (simp add: getDoc_def title_getDocument_def title_snapshot_def spread_def
      parseFieldPath_single)

lemma spread_same_first_key:
  assumes "hd (split_dot p1) = hd (split_dot p2)"
  shows "spread (parseFieldPath p1 a) (parseFieldPath p2 b) = parseFieldPath p2 b"
proof -
  obtain x where 1: "parseFieldPath p1 a = [(hd (split_dot p1), x)]"
    using first_key [of p1 a] by blast
  obtain y where 2: "parseFieldPath p2 b = [(hd (split_dot p2), y)]"
    using first_key [of p2 b] by blast
  show ?thesis using assms by (simp add: 1 2 spread_def)
qed

lemma spread_empty_target: "spread [] (parseFieldPath fp a) = parseFieldPath fp a"
proof -
  obtain x where 1: "parseFieldPath fp a = [(hd (split_dot fp), x)]"
    using first_key [of fp a] by blast
  show ?thesis by (simp add: 1 spread_def)
qed

lemma parseFieldPath_entry:
  "parseFieldPath p v = [(hd (split_dot p), nest (tl (split_dot p)) v)]"
proof -
  obtain s0 rest where sp: "split_dot p = s0 # rest"
    using split_dot_not_Nil [of p] by (cases "split_dot p") auto
  have "Obj (parseFieldPath p v) = Obj [(s0, nest rest v)]"
    using parseFieldPath_nest [of p v] sp by simp
  with sp show ?thesis by simp
qed

lemma map_of_spread_entry:
  "map_of (spread acc [(s, x)]) k = (if k = s then Some x else map_of acc k)"
  by (simp add: spread_def update_conv')

lemma map_of_spread_parseFieldPath:
  "map_of (spread acc (parseFieldPath p v)) k =
     (if k = hd (split_dot p) then map_of (parseFieldPath p v) k else map_of acc k)"
  by (simp add: parseFieldPath_entry map_of_spread_entry)

lemma shape_loop_append:
  "shape_loop (d1 @ d2) acc = shape_loop d2 (shape_loop d1 acc)"
  by (induction d1 arbitrary: acc) (simp_all add: Let_def)

lemma shape_loop_other_key:
  "list_all (\<lambda>v. hd (split_dot (snd v)) \<noteq> k) d \<Longrightarrow>
     map_of (shape_loop d acc) k = map_of acc k"
proof (induction d arbitrary: acc)
  case Nil
  show ?case by simp
next
  case (Cons v d)
  then have "map_of (shape_loop (v # d) acc) k =
      map_of (spread acc (parseFieldPath (snd v) (Obj acc))) k"
    by (simp add: Let_def)
  also have "\<dots> = map_of acc k"
    using Cons.prems by (auto simp: map_of_spread_parseFieldPath)
  finally show ?case .
qed

lemma shape_loop_last_request:
  assumes "list_all (\<lambda>v. hd (split_dot (snd v)) \<noteq> hd (split_dot p)) d2"
  shows "map_of (shape_loop (d1 @ (x, p) # d2) acc) (hd (split_dot p)) =
           Some (nest (tl (split_dot p)) (Obj (shape_loop d1 acc)))"
proof -
  let ?A = "shape_loop d1 acc"
  have "shape_loop (d1 @ (x, p) # d2) acc =
      shape_loop d2 (spread ?A (parseFieldPath p (Obj ?A)))"
    by (simp add: shape_loop_append Let_def)
  then have "map_of (shape_loop (d1 @ (x, p) # d2) acc) (hd (split_dot p)) =
      map_of (spread ?A (parseFieldPath p (Obj ?A))) (hd (split_dot p))"
    using shape_loop_other_key [OF assms] by simp
  also have "\<dots> = Some (nest (tl (split_dot p)) (Obj ?A))"
    by (simp add: parseFieldPath_entry map_of_spread_entry)
  finally show ?thesis .
qed

text \<open>
  Claim C9. The merge is shallow, key by key at the top level only. Merging the shaped
  object of a path into an accumulated object replaces the value of the path's first
  segment as a whole by the shaped value and leaves every other top-level key as it
  was. Over the whole loop of \<open>getDoc\<close>, for any list of requests: the value under a
  first segment is the shaped value of the last request that has this first segment,
  whatever earlier requests with the same first segment put there, and a key that is no
  request's first segment keeps the value it had. In particular, merging the shaped
  objects of two paths with the same first segment leaves exactly the second, and two
  such requests alone leave the shaped object of the second: for \<open>a.b\<close> then \<open>a.c\<close> the
  key \<open>a\<close> holds an object with the single key \<open>c\<close>.
\<close>

theorem shallow_merge_overwrites:
  "map_of (spread acc (parseFieldPath p v)) k =
     (if k = hd (split_dot p) then Some (nest (tl (split_dot p)) v) else map_of acc k) \<and>
   (list_all (\<lambda>r. hd (split_dot (snd r)) \<noteq> hd (split_dot p)) d2 \<longrightarrow>
      map_of (shape_loop (d1 @ (x, p) # d2) acc) (hd (split_dot p)) =
        Some (nest (tl (split_dot p)) (Obj (shape_loop d1 acc)))) \<and>
   (list_all (\<lambda>r. hd (split_dot (snd r)) \<noteq> k) d \<longrightarrow>
      map_of (shape_loop d acc) k = map_of acc k) \<and>
   (hd (split_dot p1) = hd (split_dot p2) \<longrightarrow>
      spread (parseFieldPath p1 v1) (parseFieldPath p2 v2) = parseFieldPath p2 v2 \<and>
      shape_loop [(x1, p1), (x2, p2)] [] =
        parseFieldPath p2 (Obj (parseFieldPath p1 (Obj []))))"
proof -
  have a: "map_of (spread acc (parseFieldPath p v)) k =
     (if k = hd (split_dot p) then Some (nest (tl (split_dot p)) v) else map_of acc k)"
    by (simp add: parseFieldPath_entry map_of_spread_entry)
  have b: "hd (split_dot p1) = hd (split_dot p2) \<longrightarrow>
      spread (parseFieldPath p1 v1) (parseFieldPath p2 v2) = parseFieldPath p2 v2 \<and>
      shape_loop [(x1, p1), (x2, p2)] [] =
        parseFieldPath p2 (Obj (parseFieldPath p1 (Obj [])))"
    by (simp add: Let_def spread_same_first_key spread_empty_target)
  from a b show ?thesis
    using shape_loop_last_request [of p d2 d1 x acc] shape_loop_other_key [of k d acc]
    by blast
qed

theorem shallow_merge_overwrites_witness:
  "hd (split_dot ''x'') \<noteq> hd (split_dot ''a.c'') \<and>
   map_of (shape_loop ([(Leaf (1::nat), ''a.b'')] @ (Leaf 3, ''a.c'') # [(Leaf 2, ''x'')]) [])
       ''a''
     = Some (Obj [(''c'', Obj [(''a'', Obj [(''b'', Obj [])])])]) \<and>
   hd (split_dot ''a.b'') \<noteq> ''x'' \<and> hd (split_dot ''a.c'') \<noteq> ''x'' \<and>
   map_of (shape_loop [(Leaf (1::nat), ''a.b''), (Leaf 3, ''a.c'')] [(''x'', Leaf 2)]) ''x''
     = Some (Leaf 2) \<and>
   map_of (spread [(''a'', Obj [(''b'', Leaf (1::nat))]), (''x'', Leaf 2)]
             (parseFieldPath ''a.c'' (Leaf 3))) ''a''
     = Some (Obj [(''c'', Leaf 3)]) \<and>
   hd (split_dot ''a.b'') = hd (split_dot ''a.c'') \<and>
   spread (parseFieldPath ''a.b'' (Leaf (1::nat))) (parseFieldPath ''a.c'' (Leaf 2))
     = [(''a'', Obj [(''c'', Leaf 2)])] \<and>
   shape_loop [(Leaf (1::nat), ''a.b''), (Leaf 2, ''a.c'')] []
     = [(''a'', Obj [(''c'', Obj [(''a'', Obj [(''b'', Obj [])])])])]"
proof -
  have h1: "list_all (\<lambda>r. hd (split_dot (snd r)) \<noteq> hd (split_dot ''a.c''))
              [(Leaf (2::nat), ''x'')]"
    by simp
  have h2: "list_all (\<lambda>r. hd (split_dot (snd r)) \<noteq> ''x'')
              [(Leaf (1::nat), ''a.b''), (Leaf 3, ''a.c'')]"
    by simp
  have h3: "hd (split_dot ''a.b'') = hd (split_dot ''a.c'')"
    by simp
  have last_wins:
    "map_of (shape_loop ([(Leaf (1::nat), ''a.b'')] @ (Leaf 3, ''a.c'') # [(Leaf 2, ''x'')]) [])
         (hd (split_dot ''a.c''))
       = Some (nest (tl (split_dot ''a.c'')) (Obj (shape_loop [(Leaf 1, ''a.b'')] [])))"
    using h1 shallow_merge_overwrites
      [of "[]" "''a.c''" "Leaf (3::nat)" "''x''" "[(Leaf 2, ''x'')]" "[(Leaf 1, ''a.b'')]"
          "Leaf 3"]
    by blast
  have others_kept:
    "map_of (shape_loop [(Leaf (1::nat), ''a.b''), (Leaf 3, ''a.c'')] [(''x'', Leaf 2)]) ''x''
       = map_of [(''x'', Leaf (2::nat))] ''x''"
    using h2 shallow_merge_overwrites
      [of "[(''x'', Leaf (2::nat))]" "''a.c''" "Leaf 3" "''x''" "[]" "[]" "Leaf 3"
          "[(Leaf 1, ''a.b''), (Leaf 3, ''a.c'')]"]
    by blast
  have one_step:
    "map_of (spread [(''a'', Obj [(''b'', Leaf (1::nat))]), (''x'', Leaf 2)]
               (parseFieldPath ''a.c'' (Leaf 3))) ''a''
       = (if ''a'' = hd (split_dot ''a.c'') then Some (nest (tl (split_dot ''a.c'')) (Leaf 3))
          else map_of [(''a'', Obj [(''b'', Leaf 1)]), (''x'', Leaf 2)] ''a'')"
    using shallow_merge_overwrites
      [of "[(''a'', Obj [(''b'', Leaf (1::nat))]), (''x'', Leaf 2)]" "''a.c''" "Leaf 3" "''a''"]
    by blast
  have two_paths:
    "spread (parseFieldPath ''a.b'' (Leaf (1::nat))) (parseFieldPath ''a.c'' (Leaf 2))
       = parseFieldPath ''a.c'' (Leaf 2) \<and>
     shape_loop [(Leaf (1::nat), ''a.b''), (Leaf 2, ''a.c'')] []
       = parseFieldPath ''a.c'' (Obj (parseFieldPath ''a.b'' (Obj [])))"
    using h3 shallow_merge_overwrites
      [of _ _ _ _ _ _ _ _ "''a.b''" "''a.c''" "Leaf (1::nat)" "Leaf 2" "Leaf 1" "Leaf 2"]
    by blast
  show ?thesis
    using last_wins others_kept one_step two_paths
    by (simp add: parseFieldPath_entry spread_def Let_def)
qed

section \<open>Properties of \<open>writeBatch\<close>\<close>

lemma then_do_simps [simp]:
  "then_do (Inl e) f = Inl e" "then_do (Inr x) f = f x"
  by (simp_all add: then_do_def)

lemma apply_write_noop: "\<not> effective w \<Longrightarrow> apply_write w batches = Inr batches"
  by (cases "wtype w") (auto simp: apply_write_def effective_def split: option.splits)

lemma apply_write_Nil: "effective w \<Longrightarrow> apply_write w [] = Inl TypeError"
  by (cases "wtype w") (auto simp: apply_write_def effective_def on_first_batch_def split: option.splits)

lemma write_loop_Nil:
  "write_loop ws [] = (if list_ex effective ws then Inl TypeError else Inr [])"
proof (induction ws)
  case Nil
  show ?case by simp
next
  case (Cons w ws)
  show ?case
  proof (cases "effective w")
    case True
    then show ?thesis by (simp add: apply_write_Nil)
  next
    case False
    then show ?thesis using Cons by (simp add: apply_write_noop)
  qed
qed

lemma writeBatch_small:
  "length writes \<le> 500 \<Longrightarrow>
     writeBatch commit fs writes =
       (if list_ex effective writes then Inl TypeError else Inr ([], Inr []))"
  by (simp add: writeBatch_def write_loop_Nil promise_all_def)

lemma write_loop_noops:
  "\<not> list_ex effective ws \<Longrightarrow> write_loop ws batches = Inr batches"
  by (induction ws) (auto simp: apply_write_noop)

lemma chunk_Nil [simp]: "chunk [] n = []"
  by (simp add: chunk.simps)

lemma chunk_step: "xs \<noteq> [] \<Longrightarrow> 0 < n \<Longrightarrow> chunk xs n = take n xs # chunk (drop n xs) n"
  by (subst chunk.simps) simp

lemma concat_chunk: "0 < n \<Longrightarrow> concat (chunk xs n) = xs"
proof (induction xs n rule: chunk.induct)
  case (1 xs n)
  show ?case
  proof (cases "xs = []")
    case True
    then show ?thesis by simp
  next
    case False
    with 1 show ?thesis by (simp add: chunk_step)
  qed
qed

lemma chunk_two:
  assumes "n < length xs" and "length xs \<le> 2 * n"
  shows "chunk xs n = [take n xs, drop n xs]"
proof -
  have pos: "0 < n" using assms by (cases n) auto
  have a: "xs \<noteq> []" using assms by auto
  have b: "drop n xs \<noteq> []" using assms by auto
  have c: "drop n (drop n xs) = []" using assms by simp
  have d: "take n (drop n xs) = drop n xs" using assms by simp
  have "chunk (drop n xs) n = [drop n xs]"
    using chunk_step [OF b pos] by (simp only: c d chunk_Nil)
  then show ?thesis using chunk_step [OF a pos] by simp
qed

lemma writeBatch_large:
  "500 < length writes \<Longrightarrow>
     writeBatch commit fs writes =
       then_do (chunk_loop fs (chunk writes 500) [])
         (\<lambda>batches. Inr (batches, promise_all (map commit batches)))"
  by (simp add: writeBatch_def)

lemma write_loop_append:
  "write_loop (xs @ ys) batches = then_do (write_loop xs batches) (write_loop ys)"
proof (induction xs arbitrary: batches)
  case Nil
  show ?case by simp
next
  case (Cons x xs)
  show ?case by (cases "apply_write x batches") (simp_all add: Cons)
qed

lemma writeBatch_large_throws:
  assumes "500 < length writes" and "list_ex effective (take 500 writes)"
  shows "writeBatch commit fs writes = Inl TypeError"
proof -
  have ne: "writes \<noteq> []" using assms(1) by auto
  have "chunk writes 500 = take 500 writes # chunk (drop 500 writes) 500"
    by (rule chunk_step [OF ne]) simp
  then show ?thesis
    using assms by (simp add: writeBatch_large write_loop_Nil)
qed

lemma list_ex_replicate: "list_ex P (replicate n x) = (0 < n \<and> P x)"
  by (induction n) auto

lemma chunk_loop_noops:
  "list_all (\<lambda>c. \<not> list_ex effective c) cs \<Longrightarrow>
     chunk_loop fs cs batches = Inr (batches @ replicate (length cs) (writeDocs fs))"
proof (induction cs arbitrary: batches)
  case Nil
  show ?case by simp
next
  case (Cons c cs)
  then show ?case by (simp add: write_loop_noops replicate_append_same)
qed

lemma set_chunk: "c \<in> set (chunk xs n) \<Longrightarrow> set c \<subseteq> set xs"
proof (induction xs n rule: chunk.induct)
  case (1 xs n)
  show ?case
  proof (cases "xs = [] \<or> n < 1")
    case True
    with "1.prems" show ?thesis by (simp add: chunk.simps [of xs n])
  next
    case False
    with "1.prems" have "c = take n xs \<or> c \<in> set (chunk (drop n xs) n)"
      by (simp add: chunk.simps [of xs n])
    then show ?thesis
    proof
      assume "c = take n xs"
      then show ?thesis by (simp add: set_take_subset)
    next
      assume "c \<in> set (chunk (drop n xs) n)"
      with "1.IH" False have "set c \<subseteq> set (drop n xs)" by simp
      then show ?thesis using set_drop_subset [of n xs] by blast
    qed
  qed
qed

lemma writeBatch_all_noops:
  assumes "\<not> list_ex effective writes"
  shows "\<exists>k. writeBatch commit fs writes =
            Inr (replicate k (writeDocs fs), promise_all (map commit (replicate k (writeDocs fs))))"
proof (cases "length writes \<le> 500")
  case True
  with assms have "writeBatch commit fs writes = Inr ([], Inr [])"
    by (simp add: writeBatch_small)
  then have "writeBatch commit fs writes =
      Inr (replicate 0 (writeDocs fs), promise_all (map commit (replicate 0 (writeDocs fs))))"
    by (simp add: promise_all_def)
  then show ?thesis by blast
next
  case False
  have "list_all (\<lambda>c. \<not> list_ex effective c) (chunk writes 500)"
    using assms set_chunk [of _ writes 500] by (auto simp: list_all_iff list_ex_iff)
  then have "chunk_loop fs (chunk writes 500) [] =
      Inr (replicate (length (chunk writes 500)) (writeDocs fs))"
    using chunk_loop_noops [of "chunk writes 500" fs "[]"] by simp
  with False show ?thesis by (simp add: writeBatch_large)
qed

text \<open>
  Claim C1, evaluated on the code. No batch is opened for a list of at most 500 writes,
  and the array \<open>batches\<close> is empty when the first effective write of any list is
  reached. The empty list issues no commit. Lists of 1, 500, 501 and 1000 writes of kind
  \<open>SET\<close> with a payload throw \<open>TypeError\<close> on their first write and issue no commit.
\<close>

theorem writeBatch_commit_counts:
  "writeBatch commit fs [] = Inr ([], Inr []) \<and>
   writeBatch commit fs (replicate 1 \<lparr>wtype = SET, wdata = Some d, wref = r\<rparr>) = Inl TypeError \<and>
   writeBatch commit fs (replicate 500 \<lparr>wtype = SET, wdata = Some d, wref = r\<rparr>) = Inl TypeError \<and>
   writeBatch commit fs (replicate 501 \<lparr>wtype = SET, wdata = Some d, wref = r\<rparr>) = Inl TypeError \<and>
   writeBatch commit fs (replicate 1000 \<lparr>wtype = SET, wdata = Some d, wref = r\<rparr>) = Inl TypeError"
proof -
  let ?w = "\<lparr>wtype = SET, wdata = Some d, wref = r\<rparr>"
  have e: "effective ?w" by (simp add: effective_def)
  have small: "writeBatch commit fs (replicate n ?w) = Inl TypeError"
    if "0 < n" "n \<le> 500" for n
    using that e by (simp add: writeBatch_small list_ex_replicate)
  have large: "writeBatch commit fs (replicate n ?w) = Inl TypeError" if "500 < n" for n
  proof (rule writeBatch_large_throws)
    show "500 < length (replicate n ?w)" using that by simp
    have "take 500 (replicate n ?w) = replicate 500 ?w" using that by (simp add: min_def)
    then show "list_ex effective (take 500 (replicate n ?w))"
      using e by (simp add: list_ex_replicate)
  qed
  have z: "writeBatch commit fs [] = Inr ([], Inr [])"
    by (simp add: writeBatch_small)
  show ?thesis using z small [of 1] small [of 500] large [of 501] large [of 1000] by simp
qed

text \<open>
  Claim C4, evaluated on the code. Of 501 writes, the first 500 are of kind \<open>SET\<close> with
  no payload and the last is a \<open>DELETE\<close>. Two batches are committed; the \<open>DELETE\<close>, which
  lies in the second chunk, is appended to the batch of the first chunk, and the batch
  of the second chunk is committed empty. A single \<open>DELETE\<close> throws \<open>TypeError\<close> and no
  operation is appended to any batch.
\<close>

theorem writeBatch_ops_on_first_batch:
  "writeBatch commit fs
     (replicate 500 \<lparr>wtype = SET, wdata = None, wref = r\<rparr> @
        [\<lparr>wtype = DELETE, wdata = None, wref = r'\<rparr>])
    = Inr ([\<lparr>db = fs, ops = [OpDelete r']\<rparr>, \<lparr>db = fs, ops = []\<rparr>],
           promise_all [commit \<lparr>db = fs, ops = [OpDelete r']\<rparr>, commit \<lparr>db = fs, ops = []\<rparr>]) \<and>
   writeBatch commit fs [\<lparr>wtype = DELETE, wdata = None, wref = r'\<rparr>] = Inl TypeError"
proof -
  let ?n = "\<lparr>wtype = SET, wdata = None, wref = r\<rparr>"
  let ?d = "\<lparr>wtype = DELETE, wdata = None, wref = r'\<rparr>"
  let ?ws = "replicate 500 ?n @ [?d]"
  have len: "length ?ws = 501" by simp
  have ch: "chunk ?ws 500 = [replicate 500 ?n, [?d]]"
    using chunk_two [of 500 ?ws] by simp
  have noop: "\<not> list_ex effective (replicate 500 ?n)"
    by (simp add: list_ex_replicate effective_def)
  have first: "write_loop (replicate 500 ?n) bs = Inr bs" for bs :: "('a, 'b, 'c) WriteBatch list"
    using noop by (rule write_loop_noops)
  have big: "writeBatch commit fs ?ws
    = Inr ([\<lparr>db = fs, ops = [OpDelete r']\<rparr>, \<lparr>db = fs, ops = []\<rparr>],
           promise_all [commit \<lparr>db = fs, ops = [OpDelete r']\<rparr>, commit \<lparr>db = fs, ops = []\<rparr>])"
    by (simp add: writeBatch_large ch first writeDocs_def apply_write_def on_first_batch_def)
  have single: "writeBatch commit fs [?d] = Inl TypeError"
    by (simp add: writeBatch_small effective_def)
  from big single show ?thesis by blast
qed

lemma first_rejection_None:
  "first_rejection ps = None \<longleftrightarrow> list_all (\<lambda>p. isl (snd p) = False) ps"
proof (induction ps rule: first_rejection.induct)
  case 1
  show ?case by simp
next
  case (2 t x ps)
  then show ?case by simp
next
  case (3 t e ps)
  then show ?case by (simp split: option.splits)
qed

lemma first_rejection_earliest:
  "first_rejection ps = Some (t, e) \<Longrightarrow>
     (t, Inl e) \<in> set ps \<and> list_all (\<lambda>p. isl (snd p) = False \<or> t \<le> fst p) ps"
proof (induction ps arbitrary: t e rule: first_rejection.induct)
  case 1
  then show ?case by simp
next
  case (2 u x ps)
  then show ?case by simp
next
  case (3 u e' ps)
  show ?case
  proof (cases "first_rejection ps")
    case None
    with 3 show ?thesis by (auto simp: first_rejection_None list_all_iff)
  next
    case (Some a)
    obtain t' e'' where a: "a = (t', e'')" by (cases a)
    from "3.IH" [of t' e''] Some a
    have ih: "(t', Inl e'') \<in> set ps" "list_all (\<lambda>p. isl (snd p) = False \<or> t' \<le> fst p) ps"
      by simp_all
    show ?thesis
    proof (cases "t' < u")
      case True
      with "3.prems" Some a ih show ?thesis by auto
    next
      case False
      with "3.prems" Some a have eq: "t = u" "e = e'" by auto
      from False ih(2) have "list_all (\<lambda>p. isl (snd p) = False \<or> u \<le> fst p) ps"
        by (auto simp: list_all_iff)
      with eq show ?thesis by simp
    qed
  qed
qed

lemma promise_all_resolves:
  "list_all (\<lambda>p. isl (snd p) = False) ps \<Longrightarrow> \<exists>xs. promise_all ps = Inr xs \<and> length xs = length ps"
proof -
  assume a: "list_all (\<lambda>p. isl (snd p) = False) ps"
  then have "first_rejection ps = None" by (simp add: first_rejection_None)
  moreover from a
  have "length (concat (map (\<lambda>p. case snd p of Inl e \<Rightarrow> [] | Inr x \<Rightarrow> [x]) ps)) = length ps"
    by (induction ps) (auto split: sum.splits)
  ultimately show ?thesis by (simp add: promise_all_def)
qed

lemma promise_all_rejects:
  "list_ex (\<lambda>p. isl (snd p)) ps \<Longrightarrow>
     \<exists>t e. promise_all ps = Inl e \<and> (t, Inl e) \<in> set ps \<and>
           list_all (\<lambda>p. isl (snd p) = False \<or> t \<le> fst p) ps"
proof -
  assume "list_ex (\<lambda>p. isl (snd p)) ps"
  then have "first_rejection ps \<noteq> None"
    by (auto simp: first_rejection_None list_all_iff list_ex_iff)
  then obtain t e where fr: "first_rejection ps = Some (t, e)" by auto
  then have "promise_all ps = Inl e" by (simp add: promise_all_def)
  with first_rejection_earliest [OF fr] show ?thesis by blast
qed

lemma writeBatch_outcome:
  "writeBatch commit fs writes = Inr (batches, outcome) \<Longrightarrow>
     outcome = promise_all (map commit batches)"
  by (auto simp: writeBatch_def then_do_def split: sum.splits if_splits)

text \<open>
  Claim C5, evaluated on the code. With a store that fulfils every commit, a single
  \<open>DELETE\<close> and a single \<open>SET\<close> with a payload do not resolve: \<open>writeBatch\<close> throws
  \<open>TypeError\<close> before any commit is issued. Where the function does reach its last line,
  the promise it returns is \<open>promise_all\<close> of the commits (\<open>writeBatch_outcome\<close>), which
  rejects with the first rejection (\<open>promise_all_rejects\<close>) and is fulfilled when every
  commit is (\<open>promise_all_resolves\<close>).
\<close>

theorem writeBatch_throws_before_commit:
  "writeBatch always_fulfils fs [\<lparr>wtype = DELETE, wdata = None, wref = r\<rparr>] = Inl TypeError \<and>
   writeBatch always_fulfils fs [\<lparr>wtype = SET, wdata = Some d, wref = r\<rparr>] = Inl TypeError"
  by (simp add: writeBatch_small effective_def)

lemma apply_write_absent_payload:
  "wtype w \<noteq> DELETE \<Longrightarrow> wdata w = None \<Longrightarrow> apply_write w batches = Inr batches"
  by (rule apply_write_noop) (cases "wtype w", simp_all add: effective_def)

lemma apply_write_delete:
  "wtype w = DELETE \<Longrightarrow> apply_write w batches = on_first_batch (OpDelete (wref w)) batches"
  by (cases "on_first_batch (OpDelete (wref w)) batches") (simp_all add: apply_write_def)

lemma write_loop_skip:
  assumes "wtype w \<noteq> DELETE" and "wdata w = None"
  shows "write_loop (xs @ w # ys) batches = write_loop (xs @ ys) batches"
  by (cases "write_loop xs batches")
    (simp_all add: write_loop_append apply_write_absent_payload [OF assms])

text \<open>
  Claim C7. For a write that is not a \<open>DELETE\<close> (so of kind \<open>SET\<close> or \<open>UPDATE\<close>) and has no
  payload, the loop body returns the batches unchanged and does not throw, and the inner
  loop over a list that holds such a write runs as it does over the list without it. For
  a \<open>DELETE\<close> the loop body is the call of \<^verbatim>\<open>batches[0].delete(ref)\<close> whatever the payload
  is.
\<close>

theorem absent_payload_is_noop:
  "(wtype w \<noteq> DELETE \<and> wdata w = None \<longrightarrow>
      apply_write w batches = Inr batches \<and>
      write_loop (xs @ w # ys) batches = write_loop (xs @ ys) batches) \<and>
   (wtype w = DELETE \<longrightarrow>
      apply_write w batches = on_first_batch (OpDelete (wref w)) batches \<and>
      apply_write (w\<lparr>wdata := payload\<rparr>) batches = apply_write w batches)"
  by (simp add: apply_write_absent_payload apply_write_delete write_loop_skip)

theorem absent_payload_is_noop_witness:
  "wtype \<lparr>wtype = UPDATE, wdata = None :: nat option, wref = 1 :: nat\<rparr> \<noteq> DELETE \<and>
   wdata \<lparr>wtype = UPDATE, wdata = None :: nat option, wref = 1 :: nat\<rparr> = None \<and>
   apply_write \<lparr>wtype = UPDATE, wdata = None :: nat option, wref = 1 :: nat\<rparr>
       [writeDocs (0::nat)]
     = Inr [\<lparr>db = 0, ops = []\<rparr>] \<and>
   write_loop ([\<lparr>wtype = DELETE, wdata = None, wref = 2\<rparr>] @
               \<lparr>wtype = UPDATE, wdata = None :: nat option, wref = 1 :: nat\<rparr> # [])
       [writeDocs (0::nat)]
     = Inr [\<lparr>db = 0, ops = [OpDelete 2]\<rparr>] \<and>
   wtype \<lparr>wtype = DELETE, wdata = None :: nat option, wref = 2 :: nat\<rparr> = DELETE \<and>
   apply_write (\<lparr>wtype = DELETE, wdata = None :: nat option, wref = 2 :: nat\<rparr>
                  \<lparr>wdata := Some 9\<rparr>) [writeDocs (0::nat)]
     = Inr [\<lparr>db = 0, ops = [OpDelete 2]\<rparr>]"
proof -
  let ?u = "\<lparr>wtype = UPDATE, wdata = None :: nat option, wref = 1 :: nat\<rparr>"
  let ?d = "\<lparr>wtype = DELETE, wdata = None :: nat option, wref = 2 :: nat\<rparr>"
  let ?bs = "[writeDocs (0::nat)] :: (nat, nat, nat) WriteBatch list"
  have h1: "wtype ?u \<noteq> DELETE \<and> wdata ?u = None" by simp
  have h2: "wtype ?d = DELETE" by simp
  show ?thesis
    using h1 h2 absent_payload_is_noop [of ?u ?bs "[?d]" "[]" "Some 9"]
      absent_payload_is_noop [of ?d ?bs "[]" "[]" "Some 9"]
    by (simp add: writeDocs_def on_first_batch_def apply_write_def)
qed

section \<open>Properties of the subscriptions and of \<open>delDoc\<close>\<close>

text \<open>
  Claim C6 as stated fails: with a client that hands out the handle \<open>0\<close>, neither
  \<open>listenDoc\<close> nor \<open>listenDocs\<close> returns it.
\<close>

theorem listen_returns_no_handle:
  "fst (listenDoc counting_onSnapshot 0 no_callbacks 0)
     \<noteq> Some (fst (counting_onSnapshot 0 no_callbacks 0)) \<and>
   fst (listenDocs counting_onSnapshot 0 no_callbacks 0)
     \<noteq> Some (fst (counting_onSnapshot 0 no_callbacks 0))"
  by (simp add: listenDoc_def listenDocs_def counting_onSnapshot_def)

text \<open>
  Claim C6, amended. \<open>listenDoc\<close> and \<open>listenDocs\<close> make the underlying subscription call
  with the \<open>complete\<close>, \<open>error\<close> and \<open>next\<close> members of the callback object, the client is
  left in the state that call produces, and they return nothing: the registration
  handle is discarded.
\<close>

theorem listen_discards_handle:
  "listenDoc onSnapshot ref cb w =
     (None, snd (onSnapshot ref \<lparr>on_complete = on_complete cb, on_error = on_error cb,
                                  on_next = on_next cb\<rparr> w)) \<and>
   listenDocs onSnapshot query cb w =
     (None, snd (onSnapshot query \<lparr>on_complete = on_complete cb, on_error = on_error cb,
                                    on_next = on_next cb\<rparr> w))"
  by (simp add: listenDoc_def listenDocs_def split: prod.splits)

text \<open>
  Claim C10. \<open>delDoc\<close> does not depend on the database handle: for any two handles it
  makes the same deletion call, the one of the client library on the reference alone.
\<close>

theorem delDoc_ignores_handle:
  "delDoc deleteDoc fs1 ref w = delDoc deleteDoc fs2 ref w \<and>
   delDoc deleteDoc fs1 ref w = deleteDoc ref w"
  by (simp add: delDoc_def)

end
